theory Spec2Isabelle
  imports Main
begin

section \<open>Rectangle\<close>

text \<open>
  \<^verbatim>\<open>function Rectangle(width, height)\<close> stores its two arguments in the fields
  \<open>width\<close> and \<open>height\<close>; \<open>getArea\<close> reads both fields and multiplies them.
  The number type is left open: \<open>*\<close> is the multiplication of whatever
  numbers the caller passes.
\<close>

record 'n rectangle =
  width :: 'n
  height :: 'n

definition Rectangle :: "'n \<Rightarrow> 'n \<Rightarrow> 'n rectangle" where
  "Rectangle w h = \<lparr>width = w, height = h\<rparr>"

definition getArea :: "('n::times) rectangle \<Rightarrow> 'n" where
  "getArea this = width this * height this"

section \<open>The selector class\<close>

text \<open>
  A \<open>Selector\<close> object is either a simple fragment (the constructor's second
  branch, \<open>isCombined = false\<close>) or a combined node (\<open>isCombined = true\<close>).
  A simple fragment carries the seven fields the constructor initialises. A
  combined node carries its two children and the combinator; it has no
  \<open>order\<close> field until \<open>ensureOrder\<close> assigns one, hence the \<open>nat option\<close>.
  Part values are text. Children of a combined node are embedded by value:
  \<open>stringify\<close> reads only the stored parts of a child, and no method of the
  class writes a stored part of its receiver.
\<close>

record fragment =
  elementValue :: string
  idValue :: string
  classValues :: "string list"
  attrValues :: "string list"
  pseudoClassValues :: "string list"
  pseudoElementValue :: string
  order :: nat

datatype selector =
    Simple fragment
  | Combined selector string selector "nat option"

text \<open>
  \<open>Error msg\<close> is \<^verbatim>\<open>throw new Error(msg)\<close>. \<open>TypeError\<close> is what the
  runtime throws when \<open>clone\<close> spreads the missing \<open>classValues\<close> of a
  combined node, and when \<^verbatim>\<open>Object.setPrototypeOf\<close> is given \<open>null\<close>.
  \<open>SyntaxError\<close> is what \<^verbatim>\<open>JSON.parse\<close> throws on a text it cannot read.
\<close>

datatype error = Error string | TypeError | SyntaxError

definition order_message :: string where
  "order_message =
     ''Selector parts should be arranged in the following order: element, id, class, attribute, pseudo-class, pseudo-element''"

definition single_message :: string where
  "single_message =
     ''Element, id and pseudo-element should not occur more then one time inside the selector''"

text \<open>
  Truthiness of an argument or field that is either absent (\<open>undefined\<close>) or
  a string: only a non-empty string is truthy. A \<open>Selector\<close> object is
  always truthy, so an optional selector is truthy exactly when present.
\<close>

fun truthy :: "string option \<Rightarrow> bool" where
  "truthy None = False"
| "truthy (Some s) = (s \<noteq> [])"

definition empty_fragment :: fragment where
  "empty_fragment =
     \<lparr>elementValue = [], idValue = [], classValues = [], attrValues = [],
      pseudoClassValues = [], pseudoElementValue = [], order = 0\<rparr>"

definition Selector :: "selector option \<Rightarrow> string option \<Rightarrow> selector option \<Rightarrow> selector" where
  "Selector selector1 combinator selector2 =
     (case selector1 of
        None \<Rightarrow> Simple empty_fragment
      | Some s1 \<Rightarrow>
          (case combinator of
             None \<Rightarrow> Simple empty_fragment
           | Some c \<Rightarrow>
               (if truthy (Some c) then
                  (case selector2 of
                     None \<Rightarrow> Simple empty_fragment
                   | Some s2 \<Rightarrow> Combined s1 c s2 None)
                else Simple empty_fragment)))"

fun isCombined :: "selector \<Rightarrow> bool" where
  "isCombined (Simple f) = False"
| "isCombined (Combined s1 c s2 ord) = True"

text \<open>
  \<open>ensureOrder\<close> either throws, leaving the receiver as it was (\<open>Inl\<close>), or
  assigns \<open>this.order\<close> and returns; \<open>Inr\<close> carries the receiver after the
  assignment. On a combined node that has no \<open>order\<close> yet the comparison
  with \<open>undefined\<close> is false.
\<close>

fun ensureOrder :: "nat \<Rightarrow> selector \<Rightarrow> error + selector" where
  "ensureOrder orderValue (Simple f) =
     (if orderValue < order f then Inl (Error order_message)
      else Inr (Simple (f\<lparr>order := orderValue\<rparr>)))"
| "ensureOrder orderValue (Combined s1 c s2 ord) =
     (if (case ord of None \<Rightarrow> False | Some k \<Rightarrow> orderValue < k)
      then Inl (Error order_message)
      else Inr (Combined s1 c s2 (Some orderValue)))"

text \<open>
  \<open>ensureSingle\<close> reads \<^verbatim>\<open>this[fieldName]\<close> and throws when the value is
  truthy. It is called with three field names only; on a combined node none
  of the three fields exists and the read gives \<open>undefined\<close>.
\<close>

datatype fieldName = ElementValueField | IdValueField | PseudoElementValueField

fun getField :: "selector \<Rightarrow> fieldName \<Rightarrow> string option" where
  "getField (Simple f) ElementValueField = Some (elementValue f)"
| "getField (Simple f) IdValueField = Some (idValue f)"
| "getField (Simple f) PseudoElementValueField = Some (pseudoElementValue f)"
| "getField (Combined s1 c s2 ord) name = None"

definition ensureSingle :: "fieldName \<Rightarrow> selector \<Rightarrow> error + unit" where
  "ensureSingle name this =
     (if truthy (getField this name) then Inl (Error single_message) else Inr ())"

text \<open>
  \<open>clone\<close> builds a fresh simple fragment and copies the seven fields into
  it; the three arrays are copied element by element (\<^verbatim>\<open>[...xs]\<close>), so the
  copy shares no array with the receiver.
\<close>

fun clone :: "selector \<Rightarrow> error + fragment" where
  "clone (Simple f) =
     Inr (empty_fragment
            \<lparr>elementValue := elementValue f,
             idValue := idValue f,
             classValues := classValues f,
             attrValues := attrValues f,
             pseudoClassValues := pseudoClassValues f,
             pseudoElementValue := pseudoElementValue f,
             order := order f\<rparr>)"
| "clone (Combined s1 c s2 ord) = Inl TypeError"

text \<open>
  Each category method returns the receiver as the call leaves it, paired
  with the outcome of the call: the thrown error or the new selector.
\<close>

definition element :: "string \<Rightarrow> selector \<Rightarrow> selector \<times> (error + selector)" where
  "element val this =
     (case ensureOrder 1 this of
        Inl e \<Rightarrow> (this, Inl e)
      | Inr this1 \<Rightarrow>
          (case ensureSingle ElementValueField this1 of
             Inl e \<Rightarrow> (this1, Inl e)
           | Inr u \<Rightarrow>
               (case clone this1 of
                  Inl e \<Rightarrow> (this1, Inl e)
                | Inr nxt \<Rightarrow> (this1, Inr (Simple (nxt\<lparr>elementValue := val, order := 1\<rparr>))))))"

definition id_sel :: "string \<Rightarrow> selector \<Rightarrow> selector \<times> (error + selector)" where
  "id_sel val this =
     (case ensureOrder 2 this of
        Inl e \<Rightarrow> (this, Inl e)
      | Inr this1 \<Rightarrow>
          (case ensureSingle IdValueField this1 of
             Inl e \<Rightarrow> (this1, Inl e)
           | Inr u \<Rightarrow>
               (case clone this1 of
                  Inl e \<Rightarrow> (this1, Inl e)
                | Inr nxt \<Rightarrow> (this1, Inr (Simple (nxt\<lparr>idValue := ''#'' @ val, order := 2\<rparr>))))))"

definition class_sel :: "string \<Rightarrow> selector \<Rightarrow> selector \<times> (error + selector)" where
  "class_sel val this =
     (case ensureOrder 3 this of
        Inl e \<Rightarrow> (this, Inl e)
      | Inr this1 \<Rightarrow>
          (case clone this1 of
             Inl e \<Rightarrow> (this1, Inl e)
           | Inr nxt \<Rightarrow>
               (this1, Inr (Simple (nxt\<lparr>classValues := classValues nxt @ [''.'' @ val],
                                         order := 3\<rparr>)))))"

definition attr :: "string \<Rightarrow> selector \<Rightarrow> selector \<times> (error + selector)" where
  "attr val this =
     (case ensureOrder 4 this of
        Inl e \<Rightarrow> (this, Inl e)
      | Inr this1 \<Rightarrow>
          (case clone this1 of
             Inl e \<Rightarrow> (this1, Inl e)
           | Inr nxt \<Rightarrow>
               (this1, Inr (Simple (nxt\<lparr>attrValues := attrValues nxt @ [''['' @ val @ '']''],
                                         order := 4\<rparr>)))))"

definition pseudoClass :: "string \<Rightarrow> selector \<Rightarrow> selector \<times> (error + selector)" where
  "pseudoClass val this =
     (case ensureOrder 5 this of
        Inl e \<Rightarrow> (this, Inl e)
      | Inr this1 \<Rightarrow>
          (case clone this1 of
             Inl e \<Rightarrow> (this1, Inl e)
           | Inr nxt \<Rightarrow>
               (this1, Inr (Simple (nxt\<lparr>pseudoClassValues := pseudoClassValues nxt @ ['':'' @ val],
                                         order := 5\<rparr>)))))"

definition pseudoElement :: "string \<Rightarrow> selector \<Rightarrow> selector \<times> (error + selector)" where
  "pseudoElement val this =
     (case ensureOrder 6 this of
        Inl e \<Rightarrow> (this, Inl e)
      | Inr this1 \<Rightarrow>
          (case ensureSingle PseudoElementValueField this1 of
             Inl e \<Rightarrow> (this1, Inl e)
           | Inr u \<Rightarrow>
               (case clone this1 of
                  Inl e \<Rightarrow> (this1, Inl e)
                | Inr nxt \<Rightarrow>
                    (this1, Inr (Simple (nxt\<lparr>pseudoElementValue := ''::'' @ val, order := 6\<rparr>))))))"

fun stringify :: "selector \<Rightarrow> string" where
  "stringify (Combined s1 c s2 ord) = stringify s1 @ '' '' @ c @ '' '' @ stringify s2"
| "stringify (Simple f) =
     elementValue f @ idValue f @ concat (classValues f) @ concat (attrValues f)
       @ concat (pseudoClassValues f) @ pseudoElementValue f"

section \<open>The builder facade\<close>

text \<open>
  Every entry point calls its method on a fresh \<^verbatim>\<open>new Selector()\<close>, which
  no caller can reach afterwards, so only the outcome is returned.
\<close>

definition cssSelectorBuilder_element :: "string \<Rightarrow> error + selector" where
  "cssSelectorBuilder_element val = snd (element val (Selector None None None))"

definition cssSelectorBuilder_id :: "string \<Rightarrow> error + selector" where
  "cssSelectorBuilder_id val = snd (id_sel val (Selector None None None))"

definition cssSelectorBuilder_class :: "string \<Rightarrow> error + selector" where
  "cssSelectorBuilder_class val = snd (class_sel val (Selector None None None))"

definition cssSelectorBuilder_attr :: "string \<Rightarrow> error + selector" where
  "cssSelectorBuilder_attr val = snd (attr val (Selector None None None))"

definition cssSelectorBuilder_pseudoClass :: "string \<Rightarrow> error + selector" where
  "cssSelectorBuilder_pseudoClass val = snd (pseudoClass val (Selector None None None))"

definition cssSelectorBuilder_pseudoElement :: "string \<Rightarrow> error + selector" where
  "cssSelectorBuilder_pseudoElement val = snd (pseudoElement val (Selector None None None))"

definition combine :: "selector option \<Rightarrow> string option \<Rightarrow> selector option \<Rightarrow> selector" where
  "combine selector1 combinator selector2 = Selector selector1 combinator selector2"

section \<open>Categories and builder chains\<close>

text \<open>
  The six category operations, named so that a statement can range over
  them, with the rank each passes to \<open>ensureOrder\<close>.
\<close>

datatype category = Element | Id | Class | Attr | PseudoClass | PseudoElement

fun rank :: "category \<Rightarrow> nat" where
  "rank Element = 1"
| "rank Id = 2"
| "rank Class = 3"
| "rank Attr = 4"
| "rank PseudoClass = 5"
| "rank PseudoElement = 6"

fun call :: "category \<Rightarrow> string \<Rightarrow> selector \<Rightarrow> selector \<times> (error + selector)" where
  "call Element val this = element val this"
| "call Id val this = id_sel val this"
| "call Class val this = class_sel val this"
| "call Attr val this = attr val this"
| "call PseudoClass val this = pseudoClass val this"
| "call PseudoElement val this = pseudoElement val this"

fun builder :: "category \<Rightarrow> string \<Rightarrow> error + selector" where
  "builder Element val = cssSelectorBuilder_element val"
| "builder Id val = cssSelectorBuilder_id val"
| "builder Class val = cssSelectorBuilder_class val"
| "builder Attr val = cssSelectorBuilder_attr val"
| "builder PseudoClass val = cssSelectorBuilder_pseudoClass val"
| "builder PseudoElement val = cssSelectorBuilder_pseudoElement val"

text \<open>
  A chain \<^verbatim>\<open>s.c1(v1).c2(v2)...\<close>: each call is made on the selector the
  previous call returned, and the first throw ends the chain.
\<close>

fun chain :: "(category \<times> string) list \<Rightarrow> selector \<Rightarrow> error + selector" where
  "chain [] s = Inr s"
| "chain (p # ps) s =
     (case snd (call (fst p) (snd p) s) of
        Inl e \<Rightarrow> Inl e
      | Inr s' \<Rightarrow> chain ps s')"

text \<open>A chain that starts at the facade: \<^verbatim>\<open>cssSelectorBuilder.c1(v1).c2(v2)...\<close>\<close>

definition builder_chain :: "category \<times> string \<Rightarrow> (category \<times> string) list \<Rightarrow> error + selector" where
  "builder_chain p ps =
     (case builder (fst p) (snd p) of
        Inl e \<Rightarrow> Inl e
      | Inr s \<Rightarrow> chain ps s)"

section \<open>The JSON helpers\<close>

text \<open>
  \<open>getJSON\<close> returns \<^verbatim>\<open>JSON.stringify(obj)\<close> and \<open>fromJSON\<close>
  returns \<^verbatim>\<open>Object.setPrototypeOf(JSON.parse(json), proto)\<close>. The three
  functions they forward to belong to the runtime and are not in the sources;
  they are modelled below.
\<close>

text \<open>
  Modelled from the spec: the plain structured values that the serializer
  takes and the deserializer gives back, which the sources do not declare.
  A value is \<open>null\<close>, a boolean, a number, a text, an array, or an object
  given by its properties in key order. Numbers are the integers and a text
  is a string of 8-bit characters; fractions, exponents and wider characters
  are outside the model.
\<close>

datatype json =
    JNull
  | JBool bool
  | JNumber int
  | JString string
  | JArray "json list"
  | JObject "(string \<times> json) list"

text \<open>
  Modelled from the spec: \<^verbatim>\<open>JSON.stringify\<close>, the structure-to-text
  serializer, missing from the sources. It produces the standard text form
  with no whitespace: the three literals, a number in decimal digits with a
  leading \<open>-\<close> when negative, a text between double quotes with the
  double quote, the backslash and the control characters escaped, an array
  between brackets and an object between braces, items separated by commas
  and each property written as its quoted key, a colon and its value.
\<close>

abbreviation dquote :: char where "dquote \<equiv> CHR 0x22"
abbreviation backslash :: char where "backslash \<equiv> CHR 0x5C"

definition digit_char :: "nat \<Rightarrow> char" where
  "digit_char d = char_of (48 + d)"

fun show_nat :: "nat \<Rightarrow> string" where
  "show_nat n = (if n < 10 then [digit_char n] else show_nat (n div 10) @ [digit_char (n mod 10)])"

declare show_nat.simps [simp del]

definition hex_char :: "nat \<Rightarrow> char" where
  "hex_char d = (if d < 10 then char_of (48 + d) else char_of (87 + d))"

definition escape_char :: "char \<Rightarrow> string" where
  "escape_char c =
     (if c = dquote then [backslash, dquote]
      else if c = backslash then [backslash, backslash]
      else if c = CHR 0x08 then [backslash, CHR ''b'']
      else if c = CHR 0x0C then [backslash, CHR ''f'']
      else if c = CHR 0x0A then [backslash, CHR ''n'']
      else if c = CHR 0x0D then [backslash, CHR ''r'']
      else if c = CHR 0x09 then [backslash, CHR ''t'']
      else if (of_char c :: nat) < 32 then
        [backslash, CHR ''u'', CHR ''0'', CHR ''0'',
         hex_char ((of_char c :: nat) div 16), hex_char ((of_char c :: nat) mod 16)]
      else [c])"

definition quote :: "string \<Rightarrow> string" where
  "quote s = dquote # concat (map escape_char s) @ [dquote]"

fun commas :: "string list \<Rightarrow> string" where
  "commas [] = []"
| "commas [x] = x"
| "commas (x # y # ys) = x @ CHR '','' # commas (y # ys)"

fun JSON_stringify :: "json \<Rightarrow> string" where
  "JSON_stringify JNull = ''null''"
| "JSON_stringify (JBool b) = (if b then ''true'' else ''false'')"
| "JSON_stringify (JNumber i) =
     (if i < 0 then CHR ''-'' # show_nat (nat (- i)) else show_nat (nat i))"
| "JSON_stringify (JString s) = quote s"
| "JSON_stringify (JArray xs) = CHR ''['' # commas (map JSON_stringify xs) @ '']''"
| "JSON_stringify (JObject kvs) =
     CHR ''{'' # commas (map (\<lambda>kv. quote (fst kv) @ CHR '':'' # JSON_stringify (snd kv)) kvs) @ ''}''"

text \<open>
  Modelled from the spec: \<^verbatim>\<open>JSON.parse\<close>, the text-to-structure parser,
  missing from the sources. It reads one value of the standard text form,
  with whitespace allowed around every token, and throws \<open>SyntaxError\<close>
  on any other text. A number is an optional \<open>-\<close> and decimal digits with
  no leading zero. In a text an escape stands for its character and a raw
  control character is refused. A key that occurs again in an object
  replaces the value of the property and keeps its place. The parser counts
  its nested steps down from a budget; each nested step has consumed a
  character, and \<open>JSON_parse\<close> starts from the length of the text.
\<close>

definition is_digit :: "char \<Rightarrow> bool" where
  "is_digit c \<longleftrightarrow> 48 \<le> (of_char c :: nat) \<and> (of_char c :: nat) \<le> 57"

definition digit_val :: "char \<Rightarrow> nat" where
  "digit_val c = of_char c - 48"

definition read_nat :: "string \<Rightarrow> nat" where
  "read_nat ds = foldl (\<lambda>a c. 10 * a + digit_val c) 0 ds"

definition hex_val :: "char \<Rightarrow> nat option" where
  "hex_val c =
     (let n = (of_char c :: nat) in
      if 48 \<le> n \<and> n \<le> 57 then Some (n - 48)
      else if 97 \<le> n \<and> n \<le> 102 then Some (n - 87)
      else if 65 \<le> n \<and> n \<le> 70 then Some (n - 55)
      else None)"

definition is_ws :: "char \<Rightarrow> bool" where
  "is_ws c \<longleftrightarrow> c = CHR '' '' \<or> c = CHR 0x09 \<or> c = CHR 0x0A \<or> c = CHR 0x0D"

definition skip_ws :: "string \<Rightarrow> string" where
  "skip_ws s = dropWhile is_ws s"

definition unescape :: "char \<Rightarrow> char option" where
  "unescape e =
     (if e = dquote then Some dquote
      else if e = backslash then Some backslash
      else if e = CHR ''/'' then Some (CHR ''/'')
      else if e = CHR ''b'' then Some (CHR 0x08)
      else if e = CHR ''f'' then Some (CHR 0x0C)
      else if e = CHR ''n'' then Some (CHR 0x0A)
      else if e = CHR ''r'' then Some (CHR 0x0D)
      else if e = CHR ''t'' then Some (CHR 0x09)
      else None)"

definition hex4 :: "char \<Rightarrow> char \<Rightarrow> char \<Rightarrow> char \<Rightarrow> char option" where
  "hex4 a b c d =
     (case (hex_val a, hex_val b, hex_val c, hex_val d) of
        (Some x, Some y, Some z, Some w) \<Rightarrow>
          (let n = ((x * 16 + y) * 16 + z) * 16 + w in
           if n < 256 then Some (char_of n) else None)
      | _ \<Rightarrow> None)"

definition cons_char :: "char \<Rightarrow> (string \<times> string) option \<Rightarrow> (string \<times> string) option" where
  "cons_char c res = (case res of None \<Rightarrow> None | Some (str, r) \<Rightarrow> Some (c # str, r))"

fun parse_chars :: "string \<Rightarrow> (string \<times> string) option" where
  "parse_chars [] = None"
| "parse_chars (c # s) =
     (if c = dquote then Some ([], s)
      else if c = backslash then
        (case s of
           [] \<Rightarrow> None
         | e # s1 \<Rightarrow>
             (if e = CHR ''u'' then
                (case s1 of
                   a # b # c # d # s2 \<Rightarrow>
                     (case hex4 a b c d of
                        None \<Rightarrow> None
                      | Some ch \<Rightarrow> cons_char ch (parse_chars s2))
                 | _ \<Rightarrow> None)
              else
                (case unescape e of
                   None \<Rightarrow> None
                 | Some ch \<Rightarrow> cons_char ch (parse_chars s1))))
      else if (of_char c :: nat) < 32 then None
      else cons_char c (parse_chars s))"

definition parse_number :: "string \<Rightarrow> (json \<times> string) option" where
  "parse_number s =
     (let neg = (case s of [] \<Rightarrow> False | c # r \<Rightarrow> c = CHR ''-'');
          t = (if neg then drop 1 s else s);
          ds = takeWhile is_digit t
      in case ds of
           [] \<Rightarrow> None
         | d # ds' \<Rightarrow>
             if d = CHR ''0'' \<and> ds' \<noteq> [] then None
             else Some (JNumber (if neg then - int (read_nat ds) else int (read_nat ds)),
                        dropWhile is_digit t))"

primrec parse_items ::
  "(string \<Rightarrow> ('a \<times> string) option) \<Rightarrow> char \<Rightarrow> nat \<Rightarrow> string \<Rightarrow> ('a list \<times> string) option" where
  "parse_items p close 0 s = None"
| "parse_items p close (Suc k) s =
     (case p s of
        None \<Rightarrow> None
      | Some (x, r) \<Rightarrow>
          (case skip_ws r of
             [] \<Rightarrow> None
           | c # r1 \<Rightarrow>
               if c = CHR '','' then
                 (case parse_items p close k r1 of
                    None \<Rightarrow> None
                  | Some (xs, r2) \<Rightarrow> Some (x # xs, r2))
               else if c = close then Some ([x], r1)
               else None))"

definition parse_member ::
  "(string \<Rightarrow> (json \<times> string) option) \<Rightarrow> string \<Rightarrow> ((string \<times> json) \<times> string) option" where
  "parse_member p s =
     (case skip_ws s of
        [] \<Rightarrow> None
      | c # r \<Rightarrow>
          if c = dquote then
            (case parse_chars r of
               None \<Rightarrow> None
             | Some (k, r1) \<Rightarrow>
                 (case skip_ws r1 of
                    [] \<Rightarrow> None
                  | d # r2 \<Rightarrow>
                      if d = CHR '':'' then
                        (case p r2 of
                           None \<Rightarrow> None
                         | Some (v, r3) \<Rightarrow> Some ((k, v), r3))
                      else None))
          else None)"

fun put_property :: "string \<Rightarrow> json \<Rightarrow> (string \<times> json) list \<Rightarrow> (string \<times> json) list" where
  "put_property k v [] = [(k, v)]"
| "put_property k v (kv # kvs) =
     (if fst kv = k then (k, v) # kvs else kv # put_property k v kvs)"

definition build_object :: "(string \<times> json) list \<Rightarrow> (string \<times> json) list" where
  "build_object ms = foldl (\<lambda>acc kv. put_property (fst kv) (snd kv) acc) [] ms"

primrec parse_value :: "nat \<Rightarrow> string \<Rightarrow> (json \<times> string) option" where
  "parse_value 0 s = None"
| "parse_value (Suc n) s =
     (case skip_ws s of
        [] \<Rightarrow> None
      | c # r \<Rightarrow>
          if c = CHR ''n'' then (if take 3 r = ''ull'' then Some (JNull, drop 3 r) else None)
          else if c = CHR ''t'' then (if take 3 r = ''rue'' then Some (JBool True, drop 3 r) else None)
          else if c = CHR ''f'' then (if take 4 r = ''alse'' then Some (JBool False, drop 4 r) else None)
          else if c = dquote then
            (case parse_chars r of
               None \<Rightarrow> None
             | Some (str, r1) \<Rightarrow> Some (JString str, r1))
          else if c = CHR ''['' then
            (case skip_ws r of
               [] \<Rightarrow> None
             | d # r1 \<Rightarrow>
                 if d = CHR '']'' then Some (JArray [], r1)
                 else
                   (case parse_items (parse_value n) (CHR '']'') n r of
                      None \<Rightarrow> None
                    | Some (xs, r2) \<Rightarrow> Some (JArray xs, r2)))
          else if c = CHR ''{'' then
            (case skip_ws r of
               [] \<Rightarrow> None
             | d # r1 \<Rightarrow>
                 if d = CHR ''}'' then Some (JObject [], r1)
                 else
                   (case parse_items (parse_member (parse_value n)) (CHR ''}'') n r of
                      None \<Rightarrow> None
                    | Some (ms, r2) \<Rightarrow> Some (JObject (build_object ms), r2)))
          else parse_number (c # r))"

definition JSON_parse :: "string \<Rightarrow> error + json" where
  "JSON_parse s =
     (case parse_value (length s) s of
        None \<Rightarrow> Inl SyntaxError
      | Some (v, r) \<Rightarrow> if skip_ws r = [] then Inr v else Inl SyntaxError)"

text \<open>
  Modelled from the spec: \<^verbatim>\<open>Object.setPrototypeOf\<close>, which attaches
  the given prototype to a parsed value and is missing from the sources. An
  array or an object comes back with the prototype attached. On \<open>null\<close>
  the built-in throws \<open>TypeError\<close>; a boolean, a number or a text is no
  object and comes back as it is, with nothing attached.
\<close>

datatype 'p jsvalue = Plain json | WithPrototype json 'p

fun Object_setPrototypeOf :: "json \<Rightarrow> 'p \<Rightarrow> error + 'p jsvalue" where
  "Object_setPrototypeOf JNull proto = Inl TypeError"
| "Object_setPrototypeOf (JArray xs) proto = Inr (WithPrototype (JArray xs) proto)"
| "Object_setPrototypeOf (JObject kvs) proto = Inr (WithPrototype (JObject kvs) proto)"
| "Object_setPrototypeOf v proto = Inr (Plain v)"

text \<open>
  The two functions of the module, as the sources have them.
\<close>

definition getJSON :: "json \<Rightarrow> string" where
  "getJSON obj = JSON_stringify obj"

definition fromJSON :: "'p \<Rightarrow> string \<Rightarrow> error + 'p jsvalue" where
  "fromJSON proto json =
     (case JSON_parse json of
        Inl e \<Rightarrow> Inl e
      | Inr obj \<Rightarrow> Object_setPrototypeOf obj proto)"

section \<open>Notions the statements are phrased in\<close>

text \<open>
  The methods that call \<open>ensureSingle\<close>, with the field each passes to it:
  \<open>element\<close>, \<open>id\<close> and \<open>pseudoElement\<close>.
\<close>

fun single_field :: "category \<Rightarrow> fieldName option" where
  "single_field Element = Some ElementValueField"
| "single_field Id = Some IdValueField"
| "single_field PseudoElement = Some PseudoElementValueField"
| "single_field c = None"

text \<open>
  The decorated text of one part, as the specification lists it: the element
  text as it is, the id after \<open>#\<close>, a class after \<open>.\<close>, an attribute
  between brackets, a pseudo-class after \<open>:\<close>, the pseudo-element after
  \<open>::\<close>.
\<close>

fun decorated :: "category \<times> string \<Rightarrow> string" where
  "decorated (Element, v) = v"
| "decorated (Id, v) = ''#'' @ v"
| "decorated (Class, v) = ''.'' @ v"
| "decorated (Attr, v) = ''['' @ v @ '']''"
| "decorated (PseudoClass, v) = '':'' @ v"
| "decorated (PseudoElement, v) = ''::'' @ v"

definition tokens_of :: "category \<Rightarrow> (category \<times> string) list \<Rightarrow> string list" where
  "tokens_of c ps = map decorated (filter (\<lambda>p. fst p = c) ps)"

text \<open>
  The text the specification gives for a chain: the six groups one after the
  other, each group in insertion order, nothing between them.
\<close>

definition grouped_text :: "(category \<times> string) list \<Rightarrow> string" where
  "grouped_text ps =
     concat (tokens_of Element ps) @ concat (tokens_of Id ps) @ concat (tokens_of Class ps)
       @ concat (tokens_of Attr ps) @ concat (tokens_of PseudoClass ps)
       @ concat (tokens_of PseudoElement ps)"

text \<open>
  A valid chain: the ranks never decrease, and element, id and pseudo-element
  occur at most once each.
\<close>

definition valid_chain :: "(category \<times> string) list \<Rightarrow> bool" where
  "valid_chain ps \<longleftrightarrow>
     sorted (map (\<lambda>p. rank (fst p)) ps)
     \<and> count_list (map fst ps) Element \<le> 1
     \<and> count_list (map fst ps) Id \<le> 1
     \<and> count_list (map fst ps) PseudoElement \<le> 1"

text \<open>
  The flattened reading of a combinator tree: the texts of its simple
  fragments and its combinators from left to right, then joined with one
  space between neighbours.
\<close>

fun flatten :: "selector \<Rightarrow> string list" where
  "flatten (Simple f) = [stringify (Simple f)]"
| "flatten (Combined s1 c s2 ord) = flatten s1 @ [c] @ flatten s2"

fun join_spaces :: "string list \<Rightarrow> string" where
  "join_spaces [] = []"
| "join_spaces [x] = x"
| "join_spaces (x # y # ys) = x @ '' '' @ join_spaces (y # ys)"

text \<open>
  How the stored parts of the fragment a chain returns relate to the parts it
  started from: every call of the chain has added its decorated token to the
  field of its category.
\<close>

definition parts_after :: "fragment \<Rightarrow> (category \<times> string) list \<Rightarrow> fragment \<Rightarrow> bool" where
  "parts_after f ps g \<longleftrightarrow>
     elementValue g = elementValue f @ concat (tokens_of Element ps)
     \<and> idValue g = idValue f @ concat (tokens_of Id ps)
     \<and> classValues g = classValues f @ tokens_of Class ps
     \<and> attrValues g = attrValues f @ tokens_of Attr ps
     \<and> pseudoClassValues g = pseudoClassValues f @ tokens_of PseudoClass ps
     \<and> pseudoElementValue g = pseudoElementValue f @ concat (tokens_of PseudoElement ps)"

text \<open>
  A value whose objects have no key twice, at any depth: the values an object
  of the runtime can hold. The arrays and objects are the values a prototype
  can be attached to.
\<close>

fun wf_json :: "json \<Rightarrow> bool" where
  "wf_json (JArray xs) = list_all wf_json xs"
| "wf_json (JObject kvs) = (distinct (map fst kvs) \<and> list_all (\<lambda>kv. wf_json (snd kv)) kvs)"
| "wf_json v = True"

fun is_object :: "json \<Rightarrow> bool" where
  "is_object (JArray xs) = True"
| "is_object (JObject kvs) = True"
| "is_object v = False"

text \<open>
  What may follow the printed text of a value without running into it: a
  text that does not begin with a digit. The printed text of a value begins
  with one of the characters \<open>value_start\<close> lists.
\<close>

definition ends_number :: "string \<Rightarrow> bool" where
  "ends_number rest = (case rest of [] \<Rightarrow> True | c # r \<Rightarrow> \<not> is_digit c)"

definition value_start :: "char \<Rightarrow> bool" where
  "value_start c \<longleftrightarrow>
     c = CHR ''n'' \<or> c = CHR ''t'' \<or> c = CHR ''f'' \<or> c = dquote \<or> c = CHR ''['' \<or> c = CHR ''{''
     \<or> c = CHR ''-'' \<or> is_digit c"

section \<open>What each method does on a simple fragment\<close>

lemma clone_Simple [simp]: "clone (Simple f) = Inr f"
  by (simp add: empty_fragment_def)

lemma element_Simple:
  "element v (Simple f) =
     (if 1 < order f then (Simple f, Inl (Error order_message))
      else if elementValue f \<noteq> [] then (Simple (f\<lparr>order := 1\<rparr>), Inl (Error single_message))
      else (Simple (f\<lparr>order := 1\<rparr>), Inr (Simple (f\<lparr>elementValue := v, order := 1\<rparr>))))"
  by (simp add: element_def ensureSingle_def)

lemma id_sel_Simple:
  "id_sel v (Simple f) =
     (if 2 < order f then (Simple f, Inl (Error order_message))
      else if idValue f \<noteq> [] then (Simple (f\<lparr>order := 2\<rparr>), Inl (Error single_message))
      else (Simple (f\<lparr>order := 2\<rparr>), Inr (Simple (f\<lparr>idValue := ''#'' @ v, order := 2\<rparr>))))"
  by (simp add: id_sel_def ensureSingle_def)

lemma class_sel_Simple:
  "class_sel v (Simple f) =
     (if 3 < order f then (Simple f, Inl (Error order_message))
      else (Simple (f\<lparr>order := 3\<rparr>),
            Inr (Simple (f\<lparr>classValues := classValues f @ [''.'' @ v], order := 3\<rparr>))))"
  by (simp add: class_sel_def)

lemma attr_Simple:
  "attr v (Simple f) =
     (if 4 < order f then (Simple f, Inl (Error order_message))
      else (Simple (f\<lparr>order := 4\<rparr>),
            Inr (Simple (f\<lparr>attrValues := attrValues f @ [''['' @ v @ '']''], order := 4\<rparr>))))"
  by (simp add: attr_def)

lemma pseudoClass_Simple:
  "pseudoClass v (Simple f) =
     (if 5 < order f then (Simple f, Inl (Error order_message))
      else (Simple (f\<lparr>order := 5\<rparr>),
            Inr (Simple (f\<lparr>pseudoClassValues := pseudoClassValues f @ ['':'' @ v], order := 5\<rparr>))))"
  by (simp add: pseudoClass_def)

lemma pseudoElement_Simple:
  "pseudoElement v (Simple f) =
     (if 6 < order f then (Simple f, Inl (Error order_message))
      else if pseudoElementValue f \<noteq> [] then (Simple (f\<lparr>order := 6\<rparr>), Inl (Error single_message))
      else (Simple (f\<lparr>order := 6\<rparr>),
            Inr (Simple (f\<lparr>pseudoElementValue := ''::'' @ v, order := 6\<rparr>))))"
  by (simp add: pseudoElement_def ensureSingle_def)

lemmas call_Simple =
  element_Simple id_sel_Simple class_sel_Simple attr_Simple pseudoClass_Simple pseudoElement_Simple

lemma call_Combined:
  "snd (call c v (Combined s1 cm s2 ord)) = Inl TypeError
   \<or> snd (call c v (Combined s1 cm s2 ord)) = Inl (Error order_message)"
  by (cases c) (simp_all add: element_def id_sel_def class_sel_def attr_def pseudoClass_def
      pseudoElement_def ensureSingle_def)

lemma call_order_low:
  "rank c < order f \<Longrightarrow> call c v (Simple f) = (Simple f, Inl (Error order_message))"
  by (cases c) (simp_all add: call_Simple)

lemma call_success_Simple:
  assumes "call c v s = (s', Inr t)"
  shows "\<exists>f g. s = Simple f \<and> t = Simple g \<and> order g = rank c \<and> s' = Simple (f\<lparr>order := rank c\<rparr>)"
proof (cases s)
  case (Simple f)
  with assms show ?thesis
    by (cases c) (auto simp: call_Simple split: if_splits)
next
  case (Combined s1 cm s2 ord)
  with assms call_Combined [of c v s1 cm s2 ord] show ?thesis
    by simp
qed

lemma stringify_fst_call: "stringify (fst (call c v s)) = stringify s"
proof (cases s)
  case (Simple f)
  then show ?thesis
    by (cases c) (simp_all add: call_Simple)
next
  case (Combined s1 cm s2 ord)
  then show ?thesis
    by (cases c) (simp_all add: element_def id_sel_def class_sel_def attr_def pseudoClass_def
      pseudoElement_def ensureSingle_def split: option.splits)
qed

section \<open>Valid chains\<close>

lemma tokens_of_Cons:
  "tokens_of c (p # ps) = (if fst p = c then decorated p # tokens_of c ps else tokens_of c ps)"
  by (simp add: tokens_of_def)

lemma tokens_of_absent: "\<forall>p\<in>set ps. fst p \<noteq> c \<Longrightarrow> tokens_of c ps = []"
  by (induction ps) (simp_all add: tokens_of_def)

lemma count_zero_tokens: "count_list (map fst ps) c = 0 \<Longrightarrow> tokens_of c ps = []"
  by (rule tokens_of_absent) (auto simp: count_list_0_iff)

lemma chain_Simple:
  assumes "sorted (order f # map (\<lambda>p. rank (fst p)) ps)"
    and "count_list (map fst ps) Element \<le> (if elementValue f = [] then 1 else 0)"
    and "count_list (map fst ps) Id \<le> (if idValue f = [] then 1 else 0)"
    and "count_list (map fst ps) PseudoElement \<le> (if pseudoElementValue f = [] then 1 else 0)"
  shows "\<exists>g. chain ps (Simple f) = Inr (Simple g) \<and> parts_after f ps g"
  using assms
proof (induction ps arbitrary: f)
  case Nil
  then show ?case by (simp add: tokens_of_def parts_after_def)
next
  case (Cons p ps)
  obtain c v where p: "p = (c, v)" by (cases p)
  from Cons.prems(1) have le: "order f \<le> rank c"
    and srt: "sorted (rank c # map (\<lambda>p. rank (fst p)) ps)"
    by (simp_all add: p)
  show ?case
  proof (cases c)
    case Element
    with Cons.prems p have e: "elementValue f = []" and z: "count_list (map fst ps) Element = 0"
      by (auto split: if_splits)
    let ?f = "f\<lparr>elementValue := v, order := 1\<rparr>"
    from le Element have step: "snd (call c v (Simple f)) = Inr (Simple ?f)"
      by (simp add: call_Simple e)
    have "\<exists>g. chain ps (Simple ?f) = Inr (Simple g) \<and> parts_after ?f ps g"
      using srt Cons.prems(3,4) z Element p by (intro Cons.IH) (simp_all split: if_splits)
    then show ?thesis
      using step p Element e z by (simp add: parts_after_def tokens_of_Cons count_zero_tokens)
  next
    case Id
    with Cons.prems p have e: "idValue f = []" and z: "count_list (map fst ps) Id = 0"
      by (auto split: if_splits)
    let ?f = "f\<lparr>idValue := ''#'' @ v, order := 2\<rparr>"
    from le Id have step: "snd (call c v (Simple f)) = Inr (Simple ?f)"
      by (simp add: call_Simple e)
    have "\<exists>g. chain ps (Simple ?f) = Inr (Simple g) \<and> parts_after ?f ps g"
      using srt Cons.prems(2,4) z Id p by (intro Cons.IH) (simp_all split: if_splits)
    then show ?thesis
      using step p Id e z by (simp add: parts_after_def tokens_of_Cons count_zero_tokens)
  next
    case Class
    let ?f = "f\<lparr>classValues := classValues f @ [''.'' @ v], order := 3\<rparr>"
    from le Class have step: "snd (call c v (Simple f)) = Inr (Simple ?f)"
      by (simp add: call_Simple)
    have "\<exists>g. chain ps (Simple ?f) = Inr (Simple g) \<and> parts_after ?f ps g"
      using srt Cons.prems(2,3,4) Class p by (intro Cons.IH) (simp_all split: if_splits)
    then show ?thesis
      using step p Class by (simp add: parts_after_def tokens_of_Cons)
  next
    case Attr
    let ?f = "f\<lparr>attrValues := attrValues f @ [''['' @ v @ '']''], order := 4\<rparr>"
    from le Attr have step: "snd (call c v (Simple f)) = Inr (Simple ?f)"
      by (simp add: call_Simple)
    have "\<exists>g. chain ps (Simple ?f) = Inr (Simple g) \<and> parts_after ?f ps g"
      using srt Cons.prems(2,3,4) Attr p by (intro Cons.IH) (simp_all split: if_splits)
    then show ?thesis
      using step p Attr by (simp add: parts_after_def tokens_of_Cons)
  next
    case PseudoClass
    let ?f = "f\<lparr>pseudoClassValues := pseudoClassValues f @ ['':'' @ v], order := 5\<rparr>"
    from le PseudoClass have step: "snd (call c v (Simple f)) = Inr (Simple ?f)"
      by (simp add: call_Simple)
    have "\<exists>g. chain ps (Simple ?f) = Inr (Simple g) \<and> parts_after ?f ps g"
      using srt Cons.prems(2,3,4) PseudoClass p by (intro Cons.IH) (simp_all split: if_splits)
    then show ?thesis
      using step p PseudoClass by (simp add: parts_after_def tokens_of_Cons)
  next
    case PseudoElement
    with Cons.prems p have e: "pseudoElementValue f = []"
      and z: "count_list (map fst ps) PseudoElement = 0"
      by (auto split: if_splits)
    let ?f = "f\<lparr>pseudoElementValue := ''::'' @ v, order := 6\<rparr>"
    from le PseudoElement have step: "snd (call c v (Simple f)) = Inr (Simple ?f)"
      by (simp add: call_Simple e)
    have "\<exists>g. chain ps (Simple ?f) = Inr (Simple g) \<and> parts_after ?f ps g"
      using srt Cons.prems(2,3) z PseudoElement p by (intro Cons.IH) (simp_all split: if_splits)
    then show ?thesis
      using step p PseudoElement e z by (simp add: parts_after_def tokens_of_Cons count_zero_tokens)
  qed
qed

lemma builder_chain_eq: "builder_chain p ps = chain (p # ps) (Selector None None None)"
  by (cases "fst p")
    (simp_all add: builder_chain_def cssSelectorBuilder_element_def cssSelectorBuilder_id_def
      cssSelectorBuilder_class_def cssSelectorBuilder_attr_def cssSelectorBuilder_pseudoClass_def
      cssSelectorBuilder_pseudoElement_def)

lemma grouped_text_call_order:
  "sorted (map (\<lambda>p. rank (fst p)) ps) \<Longrightarrow> grouped_text ps = concat (map decorated ps)"
proof (induction ps)
  case Nil
  then show ?case by (simp add: grouped_text_def tokens_of_def)
next
  case (Cons p ps)
  obtain c v where p: "p = (c, v)" by (cases p)
  from Cons.prems have later: "\<forall>q\<in>set ps. rank c \<le> rank (fst q)"
    and srt: "sorted (map (\<lambda>p. rank (fst p)) ps)"
    by (simp_all add: p)
  have absent: "tokens_of d ps = []" if "rank d < rank c" for d
    using later that by (intro tokens_of_absent) auto
  have "grouped_text (p # ps) = decorated p @ grouped_text ps"
    by (cases c) (simp_all add: p grouped_text_def tokens_of_Cons absent)
  with Cons.IH [OF srt] show ?case by simp
qed

text \<open>
  Claim C1. Every valid builder chain (ranks never decreasing; element, id and
  pseudo-element at most once each) returns a simple fragment, and
  \<open>stringify\<close> on it is the element text, the id after \<open>#\<close>, the
  classes each after \<open>.\<close>, the attributes each in brackets, the
  pseudo-classes each after \<open>:\<close> and the pseudo-element after \<open>::\<close>,
  with no separators and each group in insertion order; this is also the
  decorated texts of the calls in call order.
\<close>

theorem chain_stringify:
  assumes "valid_chain (p # ps)"
  shows "\<exists>f. builder_chain p ps = Inr (Simple f)
           \<and> stringify (Simple f) = grouped_text (p # ps)
           \<and> stringify (Simple f) = concat (map decorated (p # ps))"
proof -
  from assms have srt: "sorted (map (\<lambda>q. rank (fst q)) (p # ps))"
    and cnt: "count_list (map fst (p # ps)) Element \<le> 1"
      "count_list (map fst (p # ps)) Id \<le> 1"
      "count_list (map fst (p # ps)) PseudoElement \<le> 1"
    by (simp_all add: valid_chain_def)
  have "\<exists>g. chain (p # ps) (Simple empty_fragment) = Inr (Simple g)
          \<and> parts_after empty_fragment (p # ps) g"
    using srt cnt by (intro chain_Simple) (simp_all add: empty_fragment_def)
  then obtain g where run: "chain (p # ps) (Simple empty_fragment) = Inr (Simple g)"
    and parts: "parts_after empty_fragment (p # ps) g"
    by blast
  have new: "Selector None None None = Simple empty_fragment"
    by (simp add: Selector_def)
  from parts have str: "stringify (Simple g) = grouped_text (p # ps)"
    by (simp add: parts_after_def grouped_text_def empty_fragment_def)
  from run new have "builder_chain p ps = Inr (Simple g)"
    by (simp add: builder_chain_eq)
  with str grouped_text_call_order [OF srt] show ?thesis
    by simp
qed

theorem chain_stringify_witness:
  "valid_chain [(Element, ''div''), (Id, ''main''), (Class, ''a''), (Class, ''b''), (Attr, ''x''),
       (PseudoClass, ''hover''), (PseudoElement, ''before'')]
   \<and> (\<exists>f. builder_chain (Element, ''div'') [(Id, ''main''), (Class, ''a''), (Class, ''b''),
          (Attr, ''x''), (PseudoClass, ''hover''), (PseudoElement, ''before'')] = Inr (Simple f)
        \<and> stringify (Simple f) = ''div#main.a.b[x]:hover::before'')"
proof -
  have v: "valid_chain [(Element, ''div''), (Id, ''main''), (Class, ''a''), (Class, ''b''),
       (Attr, ''x''), (PseudoClass, ''hover''), (PseudoElement, ''before'')]"
    by (simp add: valid_chain_def)
  from chain_stringify [OF v] v show ?thesis
    by auto
qed

section \<open>Ordering and uniqueness errors\<close>

text \<open>
  Claim C3. When a call of category \<open>c1\<close> has returned a fragment, a call
  on that fragment of any category \<open>c2\<close> of strictly lower rank throws the
  ordering error; more generally every call whose rank is strictly below the
  \<open>order\<close> of the simple fragment it is made on throws it. The error
  carries the fixed message naming the required order.
\<close>

theorem ordering_violation:
  "(rank c2 < rank c1 \<and> call c1 v1 s = (s', Inr t)
      \<longrightarrow> snd (call c2 v2 t) = Inl (Error order_message))
   \<and> (rank c < order f \<longrightarrow> snd (call c v (Simple f)) = Inl (Error order_message))
   \<and> order_message =
       ''Selector parts should be arranged in the following order: element, id, class, attribute, pseudo-class, pseudo-element''"
proof (intro conjI impI)
  assume a: "rank c2 < rank c1 \<and> call c1 v1 s = (s', Inr t)"
  then obtain g where "t = Simple g" "order g = rank c1"
    using call_success_Simple by blast
  with a show "snd (call c2 v2 t) = Inl (Error order_message)"
    by (simp add: call_order_low)
next
  assume "rank c < order f"
  then show "snd (call c v (Simple f)) = Inl (Error order_message)"
    by (simp add: call_order_low)
next
  show "order_message =
    ''Selector parts should be arranged in the following order: element, id, class, attribute, pseudo-class, pseudo-element''"
    by (simp add: order_message_def)
qed

theorem ordering_violation_witness:
  "rank Id < rank Class
   \<and> call Class ''c'' (Simple empty_fragment)
       = (Simple (empty_fragment\<lparr>order := 3\<rparr>),
          Inr (Simple (empty_fragment\<lparr>classValues := [''.c''], order := 3\<rparr>)))
   \<and> snd (call Id ''i'' (Simple (empty_fragment\<lparr>classValues := [''.c''], order := 3\<rparr>)))
       = Inl (Error order_message)
   \<and> rank Element < order (empty_fragment\<lparr>order := 3\<rparr>)
   \<and> snd (call Element ''e'' (Simple (empty_fragment\<lparr>order := 3\<rparr>))) = Inl (Error order_message)"
proof -
  have r: "rank Id < rank Class" by simp
  have c: "call Class ''c'' (Simple empty_fragment)
       = (Simple (empty_fragment\<lparr>order := 3\<rparr>),
          Inr (Simple (empty_fragment\<lparr>classValues := [''.c''], order := 3\<rparr>)))"
    by (simp add: call_Simple empty_fragment_def)
  have o: "rank Element < order (empty_fragment\<lparr>order := 3\<rparr>)" by simp
  from r c o
    ordering_violation [of Id Class "''c''" "Simple empty_fragment"
      "Simple (empty_fragment\<lparr>order := 3\<rparr>)"
      "Simple (empty_fragment\<lparr>classValues := [''.c''], order := 3\<rparr>)" "''i''"
      Element "empty_fragment\<lparr>order := 3\<rparr>" "''e''"]
  show ?thesis by blast
qed

text \<open>
  Claim C10. In \<open>element\<close>, \<open>id\<close> and \<open>pseudoElement\<close> the
  ordering check comes first: when the field is already set, so that
  \<open>ensureSingle\<close> would throw, and the rank of the call is strictly below
  the fragment's \<open>order\<close>, the call throws the ordering message, which
  is not the uniqueness message.
\<close>

theorem ordering_before_uniqueness:
  assumes "single_field c = Some fld"
    and "truthy (getField (Simple f) fld)"
    and "rank c < order f"
  shows "snd (call c v (Simple f)) = Inl (Error order_message)
         \<and> ensureSingle fld (Simple f) = Inl (Error single_message)
         \<and> order_message \<noteq> single_message"
  using assms
  by (simp add: call_order_low ensureSingle_def order_message_def single_message_def)

theorem ordering_before_uniqueness_witness:
  "\<exists>f. builder_chain (Element, ''a'') [(Id, ''b'')] = Inr (Simple f)
     \<and> single_field Element = Some ElementValueField
     \<and> truthy (getField (Simple f) ElementValueField)
     \<and> rank Element < order f
     \<and> snd (call Element ''c'' (Simple f)) = Inl (Error order_message)"
proof -
  let ?f = "empty_fragment\<lparr>elementValue := ''a'', idValue := ''#b'', order := 2\<rparr>"
  have b: "builder_chain (Element, ''a'') [(Id, ''b'')] = Inr (Simple ?f)"
    by (simp add: builder_chain_def cssSelectorBuilder_element_def Selector_def call_Simple
        empty_fragment_def)
  have s: "single_field Element = Some ElementValueField" by simp
  have t: "truthy (getField (Simple ?f) ElementValueField)" by simp
  have r: "rank Element < order ?f" by simp
  from ordering_before_uniqueness [OF s t r, of "''c''"] b s t r show ?thesis
    by blast
qed

text \<open>
  A second call of \<open>element\<close>, \<open>id\<close> or \<open>pseudoElement\<close> on the
  fragment the first call returned throws the uniqueness error, provided the
  first \<open>element\<close> value was not the empty string: \<open>id\<close> and
  \<open>pseudoElement\<close> store a prefixed, hence non-empty, text.
\<close>

lemma second_single_call:
  assumes "single_field c = Some fld" and "c = Element \<longrightarrow> v1 \<noteq> []"
    and "call c v1 s = (s', Inr t)"
  shows "snd (call c v2 t) = Inl (Error single_message)"
proof -
  from assms(3) obtain f where s: "s = Simple f"
    using call_success_Simple by blast
  from assms show ?thesis unfolding s
    by (cases c) (auto simp: call_Simple split: if_splits)
qed

text \<open>
  Claim C4 says that a second call of \<open>element\<close>, \<open>id\<close> or
  \<open>pseudoElement\<close> on a chain throws the uniqueness error whatever the two
  values are. \<open>ensureSingle\<close> tests the stored field for truthiness, and
  \<open>element\<close> stores its value unprefixed: after \<open>element('')\<close> the field
  is still the empty string, and \<open>element('b')\<close> on the returned fragment
  succeeds; the chain \<open>element('').element('b')\<close> renders \<open>b\<close>.
\<close>

theorem element_empty_then_element:
  "builder_chain (Element, []) [(Element, ''b'')]
     = Inr (Simple (empty_fragment\<lparr>elementValue := ''b'', order := 1\<rparr>))
   \<and> stringify (Simple (empty_fragment\<lparr>elementValue := ''b'', order := 1\<rparr>)) = ''b''"
  by (simp add: builder_chain_def cssSelectorBuilder_element_def Selector_def call_Simple
      empty_fragment_def)

section \<open>The receiver after a call\<close>

text \<open>
  A call leaves the stored parts of a simple receiver as they were; the only
  field it may write is \<open>order\<close>, which \<open>ensureOrder\<close> sets to the rank
  of the call when the ordering check passes.
\<close>

lemma call_receiver:
  "fst (call c v (Simple f)) = Simple f \<or> fst (call c v (Simple f)) = Simple (f\<lparr>order := rank c\<rparr>)"
  by (cases c) (simp_all add: call_Simple)

text \<open>
  Claim C2 says that a call leaves all observable state of its receiver as it
  was, the last-seen rank included. \<open>ensureOrder\<close> assigns \<open>this.order\<close>
  on the receiver before \<open>clone\<close> runs: with \<open>a = element('a')\<close>, whose
  \<open>order\<close> is 1 and on which \<open>id('b')\<close> succeeds, the call
  \<open>a.pseudoElement('x')\<close> returns a new fragment and leaves \<open>a\<close> with
  \<open>order\<close> 6, after which \<open>a.id('b')\<close> throws the ordering error.
\<close>

theorem receiver_order_overwritten:
  "\<exists>a a' b t. cssSelectorBuilder_element ''a'' = Inr (Simple a)
      \<and> order a = 1
      \<and> snd (id_sel ''b'' (Simple a)) = Inr t
      \<and> pseudoElement ''x'' (Simple a) = (Simple a', Inr b)
      \<and> order a' = 6
      \<and> snd (id_sel ''b'' (Simple a')) = Inl (Error order_message)"
  by (simp add: cssSelectorBuilder_element_def Selector_def call_Simple empty_fragment_def)

text \<open>
  Claim C6. A successful category call leaves \<open>stringify\<close> of its receiver
  unchanged: with \<open>a = class('x')\<close> and \<open>b = a.class('y')\<close>,
  \<open>a.stringify()\<close> is still \<open>.x\<close> once \<open>b\<close> exists.
\<close>

theorem receiver_stringify_kept:
  "call c v a = (a', Inr b) \<Longrightarrow> stringify a' = stringify a"
  using stringify_fst_call [of c v a] by simp

theorem receiver_stringify_kept_witness:
  "\<exists>a a' b. cssSelectorBuilder_class ''x'' = Inr a \<and> stringify a = ''.x''
      \<and> call Class ''y'' a = (a', Inr b) \<and> stringify a' = ''.x'' \<and> stringify b = ''.x.y''"
proof -
  let ?a = "Simple (empty_fragment\<lparr>classValues := [''.x''], order := 3\<rparr>)"
  let ?b = "Simple (empty_fragment\<lparr>classValues := [''.x'', ''.y''], order := 3\<rparr>)"
  have a: "cssSelectorBuilder_class ''x'' = Inr ?a"
    by (simp add: cssSelectorBuilder_class_def Selector_def call_Simple empty_fragment_def)
  have s: "stringify ?a = ''.x''" "stringify ?b = ''.x.y''"
    by (simp_all add: empty_fragment_def)
  have c: "call Class ''y'' ?a = (?a, Inr ?b)"
    by (simp add: call_Simple empty_fragment_def)
  from receiver_stringify_kept [OF c] a s c show ?thesis
    by blast
qed

section \<open>Combined selectors\<close>

lemma join_spaces_append:
  "xs \<noteq> [] \<Longrightarrow> ys \<noteq> [] \<Longrightarrow> join_spaces (xs @ ys) = join_spaces xs @ '' '' @ join_spaces ys"
proof (induction xs rule: join_spaces.induct)
  case 1
  then show ?case by simp
next
  case (2 x)
  then show ?case by (cases ys) simp_all
next
  case (3 x y zs)
  then show ?case by simp
qed

lemma flatten_nonempty: "flatten s \<noteq> []"
  by (cases s) simp_all

lemma stringify_flatten: "stringify s = join_spaces (flatten s)"
proof (induction s)
  case (Simple f)
  show ?case by simp
next
  case (Combined s1 c s2 ord)
  have "join_spaces (flatten s1 @ c # flatten s2)
          = join_spaces (flatten s1) @ '' '' @ join_spaces (c # flatten s2)"
    by (rule join_spaces_append) (simp_all add: flatten_nonempty)
  moreover have "join_spaces (c # flatten s2) = c @ '' '' @ join_spaces (flatten s2)"
    using flatten_nonempty [of s2] by (cases "flatten s2") simp_all
  ultimately show ?case
    using Combined.IH by simp
qed

text \<open>
  Claim C5. For each of the four combinator symbols, \<open>combine\<close> builds a
  combined node whose \<open>stringify\<close> is the text of the left side, one space,
  the symbol, one space, the text of the right side; with the space as symbol
  this is a run of three spaces between the two sides. Either side may itself
  be a combined node, and the text of a tree of any depth is its fragments and
  combinators from left to right, one space between neighbours.
\<close>

theorem combine_stringify:
  "(symbol \<in> {'' '', ''+'', ''~'', ''>''} \<longrightarrow>
      combine (Some left) (Some symbol) (Some right) = Combined left symbol right None
      \<and> stringify (combine (Some left) (Some symbol) (Some right))
          = stringify left @ '' '' @ symbol @ '' '' @ stringify right)
   \<and> stringify (combine (Some left) (Some '' '') (Some right))
       = stringify left @ ''   '' @ stringify right
   \<and> stringify s = join_spaces (flatten s)"
proof (intro conjI impI)
  assume "symbol \<in> {'' '', ''+'', ''~'', ''>''}"
  then have "symbol \<noteq> []" by auto
  then show c: "combine (Some left) (Some symbol) (Some right) = Combined left symbol right None"
    by (simp add: combine_def Selector_def)
  then show "stringify (combine (Some left) (Some symbol) (Some right))
          = stringify left @ '' '' @ symbol @ '' '' @ stringify right"
    by simp
next
  show "stringify (combine (Some left) (Some '' '') (Some right))
       = stringify left @ ''   '' @ stringify right"
    by (simp add: combine_def Selector_def)
next
  show "stringify s = join_spaces (flatten s)"
    by (rule stringify_flatten)
qed

theorem combine_stringify_witness:
  "''~'' \<in> {'' '', ''+'', ''~'', ''>''}
   \<and> (\<exists>a b c. cssSelectorBuilder_element ''a'' = Inr a \<and> cssSelectorBuilder_element ''b'' = Inr b
        \<and> cssSelectorBuilder_element ''c'' = Inr c
        \<and> stringify (combine (Some (combine (Some a) (Some ''>'') (Some b))) (Some ''~'') (Some c))
            = ''a > b ~ c'')"
proof -
  let ?a = "Simple (empty_fragment\<lparr>elementValue := ''a'', order := 1\<rparr>)"
  let ?b = "Simple (empty_fragment\<lparr>elementValue := ''b'', order := 1\<rparr>)"
  let ?c = "Simple (empty_fragment\<lparr>elementValue := ''c'', order := 1\<rparr>)"
  let ?ab = "combine (Some ?a) (Some ''>'') (Some ?b)"
  have m: "''~'' \<in> {'' '', ''+'', ''~'', ''>''}" by simp
  have a: "cssSelectorBuilder_element ''a'' = Inr ?a"
    and b: "cssSelectorBuilder_element ''b'' = Inr ?b"
    and c: "cssSelectorBuilder_element ''c'' = Inr ?c"
    by (simp_all add: cssSelectorBuilder_element_def Selector_def call_Simple empty_fragment_def)
  have inner: "stringify ?ab = ''a > b''"
    by (simp add: combine_def Selector_def empty_fragment_def)
  have right: "stringify ?c = ''c''"
    by (simp add: empty_fragment_def)
  from combine_stringify [of "''~''" ?ab ?c] m
  have "stringify (combine (Some ?ab) (Some ''~'') (Some ?c))
          = stringify ?ab @ '' '' @ ''~'' @ '' '' @ stringify ?c"
    by blast
  then have "stringify (combine (Some ?ab) (Some ''~'') (Some ?c)) = ''a > b ~ c''"
    by (simp only: inner right append.simps)
  with m a b c show ?thesis by blast
qed

text \<open>
  Claim C9. With a falsy combinator (absent, or the empty string) the
  constructor takes its second branch: \<open>combine\<close> returns the same empty
  simple fragment as \<^verbatim>\<open>new Selector()\<close>, not a combined node, both
  arguments are dropped and \<open>stringify\<close> gives the empty string.
\<close>

theorem combine_falsy:
  "\<not> truthy c \<Longrightarrow>
     combine (Some left) c (Some right) = Selector None None None
     \<and> combine (Some left) c (Some right) = Simple empty_fragment
     \<and> \<not> isCombined (combine (Some left) c (Some right))
     \<and> stringify (combine (Some left) c (Some right)) = []"
  by (cases c) (simp_all add: combine_def Selector_def empty_fragment_def)

theorem combine_falsy_witness:
  "\<not> truthy (Some [])
   \<and> combine (Some (Simple (empty_fragment\<lparr>elementValue := ''a'', order := 1\<rparr>))) (Some [])
        (Some (Simple (empty_fragment\<lparr>idValue := ''#b'', order := 2\<rparr>))) = Simple empty_fragment
   \<and> stringify (combine (Some (Simple (empty_fragment\<lparr>elementValue := ''a'', order := 1\<rparr>))) (Some [])
        (Some (Simple (empty_fragment\<lparr>idValue := ''#b'', order := 2\<rparr>)))) = []"
proof -
  have f: "\<not> truthy (Some [])" by simp
  from combine_falsy [OF f] f show ?thesis by blast
qed

section \<open>The JSON round trip\<close>

subsection \<open>Numbers\<close>

lemma of_char_digit_char: "d < 10 \<Longrightarrow> (of_char (digit_char d) :: nat) = 48 + d"
  by (simp add: digit_char_def)

lemma is_digit_digit_char: "d < 10 \<Longrightarrow> is_digit (digit_char d)"
  by (simp add: is_digit_def of_char_digit_char)

lemma digit_val_digit_char: "d < 10 \<Longrightarrow> digit_val (digit_char d) = d"
  by (simp add: digit_val_def of_char_digit_char)

lemma digit_char_nonzero: "0 < d \<Longrightarrow> d < 10 \<Longrightarrow> digit_char d \<noteq> CHR ''0''"
proof
  assume d: "0 < d" "d < 10" and "digit_char d = CHR ''0''"
  then have "(of_char (digit_char d) :: nat) = of_char (CHR ''0'')" by simp
  with d show False by (simp add: of_char_digit_char)
qed

lemma show_nat_nonempty: "show_nat n \<noteq> []"
  by (subst show_nat.simps) simp

lemma show_nat_digits: "c \<in> set (show_nat n) \<Longrightarrow> is_digit c"
proof (induction n rule: show_nat.induct)
  case (1 n)
  show ?case
  proof (cases "n < 10")
    case True
    with "1.prems" show ?thesis
      by (subst (asm) show_nat.simps) (simp add: is_digit_digit_char)
  next
    case False
    with "1.prems" have "c \<in> set (show_nat (n div 10)) \<or> c = digit_char (n mod 10)"
      by (subst (asm) show_nat.simps) auto
    with False "1.IH" show ?thesis
      by (auto simp: is_digit_digit_char)
  qed
qed

lemma read_nat_snoc: "read_nat (ds @ [c]) = 10 * read_nat ds + digit_val c"
  by (simp add: read_nat_def)

lemma read_nat_show_nat: "read_nat (show_nat n) = n"
proof (induction n rule: show_nat.induct)
  case (1 n)
  show ?case
  proof (cases "n < 10")
    case True
    then show ?thesis
      by (subst show_nat.simps) (simp add: read_nat_def digit_val_digit_char)
  next
    case False
    with "1.IH" have "read_nat (show_nat (n div 10)) = n div 10" by simp
    with False show ?thesis
      by (subst show_nat.simps) (simp add: read_nat_snoc digit_val_digit_char)
  qed
qed

lemma show_nat_hd: "0 < n \<Longrightarrow> hd (show_nat n) \<noteq> CHR ''0''"
proof (induction n rule: show_nat.induct)
  case (1 n)
  show ?case
  proof (cases "n < 10")
    case True
    with "1.prems" show ?thesis
      by (subst show_nat.simps) (simp add: digit_char_nonzero)
  next
    case False
    then have "0 < n div 10" by simp
    with False "1.IH" have "hd (show_nat (n div 10)) \<noteq> CHR ''0''" by simp
    with False show ?thesis
      by (subst show_nat.simps) (simp add: show_nat_nonempty)
  qed
qed

lemma show_nat_no_leading_zero:
  assumes "show_nat n = d # ds"
  shows "\<not> (d = CHR ''0'' \<and> ds \<noteq> [])"
proof (cases "n < 10")
  case True
  with assms show ?thesis
    by (subst (asm) show_nat.simps) simp
next
  case False
  then have "hd (show_nat n) \<noteq> CHR ''0''"
    by (intro show_nat_hd) simp
  with assms show ?thesis by simp
qed

lemma takeWhile_digits:
  assumes "ends_number rest"
  shows "takeWhile is_digit (show_nat n @ rest) = show_nat n"
    and "dropWhile is_digit (show_nat n @ rest) = rest"
proof -
  from assms have t: "takeWhile is_digit rest = []" and d: "dropWhile is_digit rest = rest"
    by (cases rest; simp add: ends_number_def)+
  show "takeWhile is_digit (show_nat n @ rest) = show_nat n"
    using t by (simp add: takeWhile_append2 show_nat_digits)
  show "dropWhile is_digit (show_nat n @ rest) = rest"
    using d by (simp add: dropWhile_append2 show_nat_digits)
qed

lemma minus_not_digit: "\<not> is_digit (CHR ''-'')"
  by (simp add: is_digit_def)

lemma parse_number_stringify:
  assumes "ends_number rest"
  shows "parse_number (JSON_stringify (JNumber i) @ rest) = Some (JNumber i, rest)"
proof (cases "i < 0")
  case True
  obtain d ds where sh: "show_nat (nat (- i)) = d # ds"
    using show_nat_nonempty [of "nat (- i)"] by (cases "show_nat (nat (- i))") auto
  from show_nat_no_leading_zero [OF sh] have lz: "\<not> (d = CHR ''0'' \<and> ds \<noteq> [])" .
  have rd: "read_nat (d # ds) = nat (- i)"
    using read_nat_show_nat [of "nat (- i)"] by (simp add: sh)
  have tw: "takeWhile is_digit (d # ds @ rest) = d # ds"
    and dw: "dropWhile is_digit (d # ds @ rest) = rest"
    using takeWhile_digits [OF assms, of "nat (- i)"] by (simp_all add: sh)
  from True lz show ?thesis
    by (simp add: parse_number_def Let_def sh tw dw rd del: takeWhile.simps dropWhile.simps)
next
  case False
  obtain d ds where sh: "show_nat (nat i) = d # ds"
    using show_nat_nonempty [of "nat i"] by (cases "show_nat (nat i)") auto
  from show_nat_no_leading_zero [OF sh] have lz: "\<not> (d = CHR ''0'' \<and> ds \<noteq> [])" .
  have dg: "is_digit d"
    using show_nat_digits [of d "nat i"] by (simp add: sh)
  then have nm: "d \<noteq> CHR ''-''"
    using minus_not_digit by auto
  have rd: "read_nat (d # ds) = nat i"
    using read_nat_show_nat [of "nat i"] by (simp add: sh)
  have tw: "takeWhile is_digit (d # ds @ rest) = d # ds"
    and dw: "dropWhile is_digit (d # ds @ rest) = rest"
    using takeWhile_digits [OF assms, of "nat i"] by (simp_all add: sh)
  from False lz nm show ?thesis
    by (simp add: parse_number_def Let_def sh tw dw rd del: takeWhile.simps dropWhile.simps)
qed

subsection \<open>Texts\<close>

lemma hex_val_hex_char: "d < 16 \<Longrightarrow> hex_val (hex_char d) = Some d"
  by (simp add: hex_val_def hex_char_def Let_def)

lemma hex_val_zero: "hex_val (CHR ''0'') = Some 0"
  by (simp add: hex_val_def)

lemma hex4_escape:
  assumes "(of_char c :: nat) < 32"
  shows "hex4 (CHR ''0'') (CHR ''0'') (hex_char ((of_char c :: nat) div 16))
           (hex_char ((of_char c :: nat) mod 16)) = Some c"
proof -
  let ?n = "of_char c :: nat"
  from assms have hi: "?n div 16 < 16" by simp
  have lo: "?n mod 16 < 16" by simp
  have val: "?n div 16 * 16 + ?n mod 16 = ?n" by simp
  from assms have small: "?n < 256" by simp
  show ?thesis
    by (simp add: hex4_def hex_val_zero hex_val_hex_char [OF hi] hex_val_hex_char [OF lo]
        val small del: div_mult_mod_eq)
qed

lemma parse_chars_plain:
  "c \<noteq> dquote \<Longrightarrow> c \<noteq> backslash \<Longrightarrow> \<not> (of_char c :: nat) < 32 \<Longrightarrow>
     parse_chars (c # t) = cons_char c (parse_chars t)"
  by simp

lemma parse_chars_named:
  "unescape e = Some c \<Longrightarrow> e \<noteq> CHR ''u'' \<Longrightarrow>
     parse_chars (backslash # e # t) = cons_char c (parse_chars t)"
  by simp

lemma parse_chars_hex:
  "hex4 a b x y = Some c \<Longrightarrow>
     parse_chars (backslash # CHR ''u'' # a # b # x # y # t) = cons_char c (parse_chars t)"
  by simp

lemma parse_chars_escape: "parse_chars (escape_char c @ t) = cons_char c (parse_chars t)"
proof -
  consider (dq) "c = dquote" | (bs) "c = backslash" | (b) "c = CHR 0x08" | (f) "c = CHR 0x0C"
    | (n) "c = CHR 0x0A" | (r) "c = CHR 0x0D" | (t) "c = CHR 0x09"
    | (ctl) "c \<noteq> dquote" "c \<noteq> backslash" "c \<noteq> CHR 0x08" "c \<noteq> CHR 0x0C" "c \<noteq> CHR 0x0A"
        "c \<noteq> CHR 0x0D" "c \<noteq> CHR 0x09" "(of_char c :: nat) < 32"
    | (plain) "c \<noteq> dquote" "c \<noteq> backslash" "c \<noteq> CHR 0x08" "c \<noteq> CHR 0x0C" "c \<noteq> CHR 0x0A"
        "c \<noteq> CHR 0x0D" "c \<noteq> CHR 0x09" "\<not> (of_char c :: nat) < 32"
    by blast
  then show ?thesis
  proof cases
    case dq
    then show ?thesis
      by (simp add: escape_char_def parse_chars_named unescape_def del: parse_chars.simps)
  next
    case bs
    then show ?thesis
      by (simp add: escape_char_def parse_chars_named unescape_def del: parse_chars.simps)
  next
    case b
    then show ?thesis
      by (simp add: escape_char_def parse_chars_named unescape_def del: parse_chars.simps)
  next
    case f
    then show ?thesis
      by (simp add: escape_char_def parse_chars_named unescape_def del: parse_chars.simps)
  next
    case n
    then show ?thesis
      by (simp add: escape_char_def parse_chars_named unescape_def del: parse_chars.simps)
  next
    case r
    then show ?thesis
      by (simp add: escape_char_def parse_chars_named unescape_def del: parse_chars.simps)
  next
    case t
    then show ?thesis
      by (simp add: escape_char_def parse_chars_named unescape_def del: parse_chars.simps)
  next
    case ctl
    then show ?thesis
      by (simp add: escape_char_def parse_chars_hex [OF hex4_escape] del: parse_chars.simps)
  next
    case plain
    then show ?thesis
      by (simp add: escape_char_def parse_chars_plain del: parse_chars.simps)
  qed
qed

lemma parse_chars_body:
  "parse_chars (concat (map escape_char s) @ dquote # rest) = Some (s, rest)"
proof (induction s)
  case Nil
  show ?case by simp
next
  case (Cons c s)
  have "parse_chars (escape_char c @ concat (map escape_char s) @ dquote # rest)
          = cons_char c (parse_chars (concat (map escape_char s) @ dquote # rest))"
    by (rule parse_chars_escape)
  with Cons.IH show ?case
    by (simp add: cons_char_def del: parse_chars.simps)
qed

lemma parse_chars_quote: "parse_chars (tl (quote s) @ rest) = Some (s, rest)"
  using parse_chars_body [of s rest] by (simp add: quote_def)

subsection \<open>Arrays and objects\<close>

lemma skip_ws_Cons: "\<not> is_ws c \<Longrightarrow> skip_ws (c # s) = c # s"
  by (simp add: skip_ws_def)

lemma value_start_not_ws: "value_start c \<Longrightarrow> \<not> is_ws c"
  by (auto simp: value_start_def is_ws_def is_digit_def)

lemma value_start_not_close: "value_start c \<Longrightarrow> c \<noteq> CHR '']'' \<and> c \<noteq> CHR ''}''"
  by (auto simp: value_start_def is_digit_def)

lemma stringify_start: "\<exists>c t. JSON_stringify v = c # t \<and> value_start c"
proof (cases v)
  case (JNumber i)
  show ?thesis
  proof (cases "i < 0")
    case True
    with JNumber show ?thesis by (simp add: value_start_def)
  next
    case False
    obtain d ds where sh: "show_nat (nat i) = d # ds"
      using show_nat_nonempty [of "nat i"] by (cases "show_nat (nat i)") auto
    then have "is_digit d"
      using show_nat_digits [of d "nat i"] by simp
    with False JNumber sh show ?thesis by (simp add: value_start_def)
  qed
qed (simp_all add: value_start_def quote_def)

lemma stringify_nonempty: "JSON_stringify v \<noteq> []"
  using stringify_start [of v] by auto

lemma length_commas_member: "t \<in> set ts \<Longrightarrow> length t \<le> length (commas ts)"
  by (induction ts rule: commas.induct) auto

lemma length_commas_count: "\<forall>t\<in>set ts. t \<noteq> [] \<Longrightarrow> length ts \<le> length (commas ts)"
proof (induction ts rule: commas.induct)
  case 1
  show ?case by simp
next
  case (2 x)
  then show ?case by (cases x) simp_all
next
  case (3 x y ys)
  then show ?case by simp
qed

lemma ends_number_Cons: "\<not> is_digit c \<Longrightarrow> ends_number (c # r)"
  by (simp add: ends_number_def)

lemma parse_items_commas:
  assumes "\<And>x r. x \<in> set xs \<Longrightarrow> ends_number r \<Longrightarrow> p (pr x @ r) = Some (x, r)"
    and "xs \<noteq> []" and "length xs \<le> k"
    and "close \<noteq> CHR '',''" and "\<not> is_ws close" and "\<not> is_digit close"
  shows "parse_items p close k (commas (map pr xs) @ close # rest) = Some (xs, rest)"
  using assms(1,2,3)
proof (induction xs arbitrary: k)
  case Nil
  then show ?case by simp
next
  case (Cons x xs)
  from Cons.prems(3) obtain k' where k: "k = Suc k'" and len: "length xs \<le> k'"
    by (cases k) auto
  have comma: "\<not> is_ws (CHR '','')" "\<not> is_digit (CHR '','')"
    by (simp_all add: is_ws_def is_digit_def)
  show ?case
  proof (cases xs)
    case Nil
    have "p (pr x @ close # rest) = Some (x, close # rest)"
      using assms(6) by (intro Cons.prems(1)) (simp_all add: ends_number_Cons)
    with Nil assms(4,5) show ?thesis
      by (simp add: k skip_ws_Cons)
  next
    case (Cons y ys)
    let ?tail = "commas (map pr xs) @ close # rest"
    have first: "p (pr x @ CHR '','' # ?tail) = Some (x, CHR '','' # ?tail)"
      using comma by (intro Cons.prems(1)) (simp_all add: ends_number_Cons)
    have "parse_items p close k' ?tail = Some (xs, rest)"
      using Cons len Cons.prems(1) by (intro Cons.IH) simp_all
    with first comma Cons show ?thesis
      by (simp add: k skip_ws_Cons)
  qed
qed

lemma parse_member_stringify:
  assumes "q (JSON_stringify v @ r) = Some (v, r)"
  shows "parse_member q ((quote k @ CHR '':'' # JSON_stringify v) @ r) = Some ((k, v), r)"
proof -
  have colon: "\<not> is_ws (CHR '':'')" and dq: "\<not> is_ws dquote"
    by (simp_all add: is_ws_def)
  have shape: "(quote k @ CHR '':'' # JSON_stringify v) @ r
               = dquote # (tl (quote k) @ CHR '':'' # JSON_stringify v @ r)"
    by (simp add: quote_def)
  have "parse_chars (tl (quote k) @ CHR '':'' # JSON_stringify v @ r)
          = Some (k, CHR '':'' # JSON_stringify v @ r)"
    by (rule parse_chars_quote)
  with assms colon dq show ?thesis
    unfolding shape by (simp add: parse_member_def skip_ws_Cons)
qed

lemma put_property_new: "k \<notin> fst ` set kvs \<Longrightarrow> put_property k v kvs = kvs @ [(k, v)]"
  by (induction kvs) auto

lemma build_object_distinct_aux:
  "distinct (map fst (acc @ ms)) \<Longrightarrow>
     foldl (\<lambda>acc kv. put_property (fst kv) (snd kv) acc) acc ms = acc @ ms"
proof (induction ms arbitrary: acc)
  case Nil
  show ?case by simp
next
  case (Cons m ms)
  from Cons.prems have new: "fst m \<notin> fst ` set acc" by auto
  from Cons.prems have "distinct (map fst ((acc @ [m]) @ ms))" by simp
  from Cons.IH [OF this] new show ?case
    by (simp add: put_property_new)
qed

lemma build_object_distinct: "distinct (map fst ms) \<Longrightarrow> build_object ms = ms"
  using build_object_distinct_aux [of "[]" ms] by (simp add: build_object_def)

subsection \<open>Values\<close>

lemma parse_value_number:
  assumes "ends_number rest"
  shows "parse_value (Suc m) (JSON_stringify (JNumber i) @ rest) = Some (JNumber i, rest)"
proof -
  obtain c t where sh: "JSON_stringify (JNumber i) = c # t" and st: "value_start c"
    using stringify_start [of "JNumber i"] by blast
  have num: "c = CHR ''-'' \<or> is_digit c"
  proof (cases "i < 0")
    case True
    with sh show ?thesis by simp
  next
    case False
    with sh have "c \<in> set (show_nat (nat i))"
      by (cases "show_nat (nat i)") (simp_all add: show_nat_nonempty)
    then show ?thesis by (simp add: show_nat_digits)
  qed
  then have other: "c \<noteq> CHR ''n''" "c \<noteq> CHR ''t''" "c \<noteq> CHR ''f''" "c \<noteq> dquote"
    "c \<noteq> CHR ''[''" "c \<noteq> CHR ''{''"
    by (auto simp: is_digit_def)
  have "parse_number (c # t @ rest) = Some (JNumber i, rest)"
    using parse_number_stringify [OF assms, of i] by (simp only: sh append_Cons)
  moreover have "skip_ws (c # t @ rest) = c # t @ rest"
    using value_start_not_ws [OF st] by (rule skip_ws_Cons)
  ultimately show ?thesis
    unfolding sh using other by simp
qed

lemma parse_value_stringify:
  "wf_json v \<Longrightarrow> length (JSON_stringify v) \<le> n \<Longrightarrow> ends_number rest \<Longrightarrow>
     parse_value n (JSON_stringify v @ rest) = Some (v, rest)"
proof (induction v arbitrary: n rest)
  case JNull
  then obtain m where n: "n = Suc m" by (cases n) auto
  show ?case
    by (simp add: n skip_ws_Cons is_ws_def)
next
  case (JBool b)
  then obtain m where n: "n = Suc m" by (cases n) (auto split: if_splits)
  show ?case
    by (cases b) (simp_all add: n skip_ws_Cons is_ws_def)
next
  case (JNumber i)
  from JNumber.prems(2) stringify_nonempty [of "JNumber i"] obtain m where n: "n = Suc m"
    by (cases n) auto
  from JNumber.prems(3) show ?case
    unfolding n by (rule parse_value_number)
next
  case (JString s)
  then obtain m where n: "n = Suc m" by (cases n) (auto simp: quote_def)
  have "parse_chars (tl (quote s) @ rest) = Some (s, rest)"
    by (rule parse_chars_quote)
  then show ?case
    by (simp add: n skip_ws_Cons is_ws_def quote_def)
next
  case (JArray xs)
  let ?body = "commas (map JSON_stringify xs)"
  from JArray.prems(2) obtain m where n: "n = Suc m" and len: "length ?body + 1 \<le> m"
    by (cases n) auto
  have open_ws: "\<not> is_ws (CHR ''['')" by (simp add: is_ws_def)
  show ?case
  proof (cases xs)
    case Nil
    then show ?thesis
      by (simp add: n skip_ws_Cons is_ws_def)
  next
    case (Cons y ys)
    obtain c t where first: "JSON_stringify y = c # t" and st: "value_start c"
      using stringify_start [of y] by blast
    have body: "?body @ CHR '']'' # rest = c # tl (?body @ CHR '']'' # rest)"
      using Cons first by (cases ys) simp_all
    have items: "parse_items (parse_value m) (CHR '']'') m (?body @ CHR '']'' # rest)
                   = Some (xs, rest)"
    proof (rule parse_items_commas)
      fix x r
      assume x: "x \<in> set xs" and r: "ends_number r"
      from x JArray.prems(1) have wf: "wf_json x"
        by (simp add: list_all_iff)
      from x have "length (JSON_stringify x) \<le> length ?body"
        by (intro length_commas_member) simp
      with len have fuel: "length (JSON_stringify x) \<le> m" by simp
      show "parse_value m (JSON_stringify x @ r) = Some (x, r)"
        by (rule JArray.IH [OF x wf fuel r])
    next
      show "xs \<noteq> []" using Cons by simp
    next
      have "length (map JSON_stringify xs) \<le> length ?body"
        by (intro length_commas_count) (simp add: stringify_nonempty)
      with len show "length xs \<le> m" by simp
    qed (simp_all add: is_ws_def is_digit_def)
    have skip: "skip_ws (?body @ CHR '']'' # rest) = c # tl (?body @ CHR '']'' # rest)"
      using value_start_not_ws [OF st] by (subst body) (simp add: skip_ws_Cons)
    from items skip value_start_not_close [OF st] open_ws show ?thesis
      by (simp add: n skip_ws_Cons)
  qed
next
  case (JObject kvs)
  let ?pr = "\<lambda>kv. quote (fst kv) @ CHR '':'' # JSON_stringify (snd kv)"
  let ?body = "commas (map ?pr kvs)"
  from JObject.prems(2) obtain m where n: "n = Suc m" and len: "length ?body + 1 \<le> m"
    by (cases n) auto
  from JObject.prems(1) have dist: "distinct (map fst kvs)" by simp
  have open_ws: "\<not> is_ws (CHR ''{'')" by (simp add: is_ws_def)
  show ?case
  proof (cases kvs)
    case Nil
    then show ?thesis
      by (simp add: n skip_ws_Cons is_ws_def)
  next
    case (Cons y ys)
    have body: "?body @ CHR ''}'' # rest = dquote # tl (?body @ CHR ''}'' # rest)"
      using Cons by (cases ys) (simp_all add: quote_def)
    have items: "parse_items (parse_member (parse_value m)) (CHR ''}'') m (?body @ CHR ''}'' # rest)
                   = Some (kvs, rest)"
    proof (rule parse_items_commas)
      fix kv r
      assume kv: "kv \<in> set kvs" and r: "ends_number r"
      from kv JObject.prems(1) have wf: "wf_json (snd kv)"
        by (simp add: list_all_iff)
      from kv have "length (?pr kv) \<le> length ?body"
        by (intro length_commas_member) simp
      with len have fuel: "length (JSON_stringify (snd kv)) \<le> m" by simp
      have "snd kv \<in> Basic_BNFs.snds kv"
        by (cases kv) simp
      from JObject.IH [OF kv this wf fuel r]
      have "parse_value m (JSON_stringify (snd kv) @ r) = Some (snd kv, r)" .
      then have "parse_member (parse_value m) (?pr (fst kv, snd kv) @ r) = Some ((fst kv, snd kv), r)"
        unfolding fst_conv snd_conv by (rule parse_member_stringify)
      then show "parse_member (parse_value m) (?pr kv @ r) = Some (kv, r)"
        by simp
    next
      show "kvs \<noteq> []" using Cons by simp
    next
      have "length (map ?pr kvs) \<le> length ?body"
        by (intro length_commas_count) (simp add: quote_def)
      with len show "length kvs \<le> m" by simp
    qed (simp_all add: is_ws_def is_digit_def)
    have skip: "skip_ws (?body @ CHR ''}'' # rest) = dquote # tl (?body @ CHR ''}'' # rest)"
      by (subst body) (simp add: skip_ws_Cons is_ws_def)
    from items skip open_ws show ?thesis
      by (simp add: n skip_ws_Cons build_object_distinct [OF dist])
  qed
qed

lemma JSON_parse_stringify: "wf_json v \<Longrightarrow> JSON_parse (JSON_stringify v) = Inr v"
  using parse_value_stringify [of v "length (JSON_stringify v)" "[]"]
  by (simp add: JSON_parse_def ends_number_def skip_ws_def)

text \<open>
  A boolean, a number or a text comes back equal, with no prototype attached
  to it.
\<close>

lemma fromJSON_primitive_plain:
  assumes "\<not> is_object v" and "v \<noteq> JNull"
  shows "fromJSON P (getJSON v) = Inr (Plain v)"
  using assms JSON_parse_stringify [of v]
  by (cases v) (simp_all add: fromJSON_def getJSON_def)




section \<open>The rectangle\<close>

text \<open>
  Claim C8. A rectangle built from \<open>w\<close> and \<open>h\<close> has \<open>w\<close> as its
  \<open>width\<close> and \<open>h\<close> as its \<open>height\<close>, and \<open>getArea\<close> returns the
  product \<open>w * h\<close>.
\<close>

theorem rectangle_area:
  "width (Rectangle w h) = w \<and> height (Rectangle w h) = h \<and> getArea (Rectangle w h) = w * h"
  by (simp add: Rectangle_def getArea_def)

end
